theory Spec2Isabelle
  imports Main "HOL-Library.Multiset"
begin

section \<open>Constants of \<^verbatim>\<open>main.py\<close>\<close>

type_synonym color = "int \<times> int \<times> int"
type_synonym point = "int \<times> int"

definition CARD_WIDTH :: int where "CARD_WIDTH = 80"
definition CARD_HEIGHT :: int where "CARD_HEIGHT = 120"
definition CARD_CORNER_RADIUS :: int where "CARD_CORNER_RADIUS = 5"
definition CARD_OUTLINE_WIDTH :: int where "CARD_OUTLINE_WIDTH = 2"

definition COLOR_BLACK :: color where "COLOR_BLACK = (0, 0, 0)"
definition COLOR_RED :: color where "COLOR_RED = (200, 0, 0)"
definition COLOR_GREY :: color where "COLOR_GREY = (150, 150, 150)"

definition DECK_POS :: point where "DECK_POS = (30, 30)"

section \<open>The rectangles and surfaces of the rendering library\<close>

text \<open>
  A \<^verbatim>\<open>pygame.Rect\<close> holds four integers. The three operations of the library that
  the program calls are written out: \<^verbatim>\<open>collidepoint\<close> (the right and the bottom edge
  are outside), the setter of \<^verbatim>\<open>center\<close> (the origin becomes the point minus half
  the size, halves rounded down) and the getter of \<^verbatim>\<open>center\<close>.
\<close>

record rect =
  rect_x :: int
  rect_y :: int
  rect_w :: int
  rect_h :: int

definition Rect :: "int \<Rightarrow> int \<Rightarrow> int \<Rightarrow> int \<Rightarrow> rect" where
  "Rect a b c d = \<lparr>rect_x = a, rect_y = b, rect_w = c, rect_h = d\<rparr>"

definition collidepoint :: "rect \<Rightarrow> point \<Rightarrow> bool" where
  "collidepoint r p =
     (rect_x r \<le> fst p \<and> fst p < rect_x r + rect_w r \<and>
      rect_y r \<le> snd p \<and> snd p < rect_y r + rect_h r)"

definition set_center :: "rect \<Rightarrow> point \<Rightarrow> rect" where
  "set_center r p =
     r\<lparr>rect_x := fst p - rect_w r div 2, rect_y := snd p - rect_h r div 2\<rparr>"

definition center :: "rect \<Rightarrow> point" where
  "center r = (rect_x r + rect_w r div 2, rect_y r + rect_h r div 2)"

text \<open>
  A surface is its size and the drawing calls made on it, in order. The screen is a
  surface too; only the list of calls made on it is kept.
\<close>

datatype surface = Surface "int \<times> int" "gfx list"
  and gfx =
    Fill color
  | Draw_rect color rect int int
  | Blit surface rect

definition get_rect :: "surface \<Rightarrow> rect" where
  "get_rect s = (case s of Surface sz ops \<Rightarrow> Rect 0 0 (fst sz) (snd sz))"

section \<open>Card\<close>

text \<open>
  The four suit characters of the source are the code points U+2660 (spade), U+2663
  (club), U+2665 (heart) and U+2666 (diamond). The front image of a card depends on the
  metrics of a system font and no property below reads it, so the record has no field
  for it; the rectangle a card starts with is the one of a surface of the card's size.
\<close>

datatype suit = Spade | Club | Heart | Diamond

record card =
  rank :: string
  suit_char :: suit
  suit_color :: color
  is_flipped :: bool
  back_image :: surface
  rect :: rect

definition create_back_image :: surface where
  "create_back_image =
     Surface (CARD_WIDTH, CARD_HEIGHT)
       [Fill (20, 50, 150),
        Draw_rect COLOR_GREY (Rect 0 0 CARD_WIDTH CARD_HEIGHT)
          CARD_OUTLINE_WIDTH CARD_CORNER_RADIUS]"

definition Card_init :: "string \<Rightarrow> suit \<Rightarrow> color \<Rightarrow> card" where
  "Card_init r s c =
     \<lparr>rank = r, suit_char = s, suit_color = c, is_flipped = False,
      back_image = create_back_image,
      rect = get_rect (Surface (CARD_WIDTH, CARD_HEIGHT) [])\<rparr>"

definition flip :: "card \<Rightarrow> card" where
  "flip c = c\<lparr>is_flipped := \<not> is_flipped c\<rparr>"

section \<open>Deck\<close>

text \<open>
  Cards are objects: the deck, the table and the held card refer to the same card, and a
  change made through one reference is seen through the others. The objects live in a
  store, the list of all cards in the order of their creation, and a reference is an
  index into it.
\<close>

type_synonym ref = nat

record deck =
  cards :: "ref list"
  deck_rect :: rect

definition suits :: "(suit \<times> color) list" where
  "suits = [(Spade, COLOR_BLACK), (Club, COLOR_BLACK), (Heart, COLOR_RED), (Diamond, COLOR_RED)]"

definition ranks :: "string list" where
  "ranks = [''A'', ''2'', ''3'', ''4'', ''5'', ''6''] @
           [''7'', ''8'', ''9'', ''10'', ''J'', ''Q'', ''K'']"

text \<open>The nested loop of \<^verbatim>\<open>Deck._generate\<close>: the cards it creates, in order.\<close>

definition generate :: "card list" where
  "generate = concat (map (\<lambda>(s, col). map (\<lambda>r. Card_init r s col) ranks) suits)"

text \<open>
  \<^verbatim>\<open>random.shuffle\<close> walks \<open>i\<close> from the last index down to 1 and exchanges the
  elements at \<open>i\<close> and at a random \<open>j\<close> below \<open>i + 1\<close>. The random numbers are a
  parameter: \<open>rnd i\<close> is the number the generator delivers at index \<open>i\<close>, reduced
  into the range.
\<close>

fun shuffle_from :: "(nat \<Rightarrow> nat) \<Rightarrow> nat \<Rightarrow> 'a list \<Rightarrow> 'a list" where
  "shuffle_from rnd 0 xs = xs"
| "shuffle_from rnd (Suc k) xs =
     (let i = Suc k; j = rnd i mod (i + 1)
      in shuffle_from rnd k (xs[i := xs ! j, j := xs ! i]))"

definition shuffle :: "(nat \<Rightarrow> nat) \<Rightarrow> 'a list \<Rightarrow> 'a list" where
  "shuffle rnd xs = shuffle_from rnd (length xs - 1) xs"

definition Deck_shuffle :: "(nat \<Rightarrow> nat) \<Rightarrow> deck \<Rightarrow> deck" where
  "Deck_shuffle rnd d = d\<lparr>cards := shuffle rnd (cards d)\<rparr>"

text \<open>
  \<^verbatim>\<open>Deck.__init__\<close> creates the 52 cards, which become the objects 0 to 51 of the
  store, and shuffles the references to them.
\<close>

definition Deck_init :: "(nat \<Rightarrow> nat) \<Rightarrow> card list \<times> deck" where
  "Deck_init rnd =
     (generate,
      Deck_shuffle rnd
        \<lparr>cards = [0..<length generate],
         deck_rect = Rect (fst DECK_POS) (snd DECK_POS) CARD_WIDTH CARD_HEIGHT\<rparr>)"

definition draw_card :: "deck \<Rightarrow> ref option \<times> deck" where
  "draw_card d =
     (if cards d \<noteq> [] then (Some (last (cards d)), d\<lparr>cards := butlast (cards d)\<rparr>)
      else (None, d))"

text \<open>\<open>draw_n n d\<close>: the results of \<open>n\<close> calls of \<^verbatim>\<open>draw_card\<close> in a row.\<close>

fun draw_n :: "nat \<Rightarrow> deck \<Rightarrow> ref option list \<times> deck" where
  "draw_n 0 d = ([], d)"
| "draw_n (Suc n) d =
     (let (r, d1) = draw_card d; (rs, d2) = draw_n n d1 in (r # rs, d2))"


section \<open>Game\<close>

record game =
  heap :: "card list"
  deck :: deck
  cards_on_table :: "ref list"
  held_card :: "ref option"
  drag_offset :: point

definition Game_init :: "(nat \<Rightarrow> nat) \<Rightarrow> game" where
  "Game_init rnd =
     (let (store, d) = Deck_init rnd
      in \<lparr>heap = store, deck = d, cards_on_table = [], held_card = None,
          drag_offset = (0, 0)\<rparr>)"

text \<open>
  Both loops of \<^verbatim>\<open>handle_mouse_down\<close> walk the table from its last card to its first
  and stop at the first card whose rectangle contains the point.
\<close>

definition first_hit :: "card list \<Rightarrow> ref list \<Rightarrow> point \<Rightarrow> ref option" where
  "first_hit store table p = find (\<lambda>c. collidepoint (rect (store ! c)) p) (rev table)"

definition handle_mouse_down :: "game \<Rightarrow> point \<Rightarrow> int \<Rightarrow> game" where
  "handle_mouse_down g pos button =
     (if button = 1 then
        (if collidepoint (deck_rect (deck g)) pos then
           (let (res, d) = draw_card (deck g); g1 = g\<lparr>deck := d\<rparr>
            in case res of
                 None \<Rightarrow> g1
               | Some new_card \<Rightarrow>
                   (let moved = (heap g1 ! new_card)
                          \<lparr>rect := set_center (rect (heap g1 ! new_card)) pos\<rparr>
                    in g1\<lparr>heap := (heap g1)[new_card := moved],
                          cards_on_table := cards_on_table g1 @ [new_card],
                          held_card := Some new_card,
                          drag_offset :=
                            (fst pos - rect_x (rect moved), snd pos - rect_y (rect moved))\<rparr>))
         else
           (case first_hit (heap g) (cards_on_table g) pos of
              None \<Rightarrow> g
            | Some c \<Rightarrow>
                g\<lparr>held_card := Some c,
                  cards_on_table := remove1 c (cards_on_table g) @ [c],
                  drag_offset :=
                    (fst pos - rect_x (rect (heap g ! c)), snd pos - rect_y (rect (heap g ! c)))\<rparr>))
      else if button = 3 then
        (case first_hit (heap g) (cards_on_table g) pos of
           None \<Rightarrow> g
         | Some c \<Rightarrow> g\<lparr>heap := (heap g)[c := flip (heap g ! c)]\<rparr>)
      else g)"

definition handle_mouse_up :: "game \<Rightarrow> int \<Rightarrow> game" where
  "handle_mouse_up g button = (if button = 1 then g\<lparr>held_card := None\<rparr> else g)"

definition handle_mouse_motion :: "game \<Rightarrow> point \<Rightarrow> game" where
  "handle_mouse_motion g pos =
     (case held_card g of
        None \<Rightarrow> g
      | Some c \<Rightarrow>
          g\<lparr>heap := (heap g)[c := (heap g ! c)
                \<lparr>rect := (rect (heap g ! c))
                   \<lparr>rect_x := fst pos - fst (drag_offset g),
                    rect_y := snd pos - snd (drag_offset g)\<rparr>\<rparr>]\<rparr>)"

text \<open>
  The events the loop of \<^verbatim>\<open>Game.run\<close> takes from the queue. A quit event and every
  other kind of event leave the session as it is.
\<close>

datatype event =
    MOUSEBUTTONDOWN point int
  | MOUSEBUTTONUP point int
  | MOUSEMOTION point
  | QUIT
  | OTHER

fun dispatch :: "game \<Rightarrow> event \<Rightarrow> game" where
  "dispatch g (MOUSEBUTTONDOWN pos button) = handle_mouse_down g pos button"
| "dispatch g (MOUSEBUTTONUP pos button) = handle_mouse_up g button"
| "dispatch g (MOUSEMOTION pos) = handle_mouse_motion g pos"
| "dispatch g QUIT = g"
| "dispatch g OTHER = g"

definition run :: "game \<Rightarrow> event list \<Rightarrow> game" where
  "run g evs = foldl dispatch g evs"

section \<open>What every session state satisfies\<close>

text \<open>
  \<open>same_face a b\<close>: the attributes of a card that no handler writes.
\<close>

definition same_face :: "card \<Rightarrow> card \<Rightarrow> bool" where
  "same_face a b \<longleftrightarrow>
     rank a = rank b \<and> suit_char a = suit_char b \<and> suit_color a = suit_color b \<and>
     back_image a = back_image b \<and>
     rect_w (rect a) = rect_w (rect b) \<and> rect_h (rect a) = rect_h (rect b)"

definition session_inv :: "game \<Rightarrow> bool" where
  "session_inv g \<longleftrightarrow>
     length (heap g) = 52 \<and>
     distinct (cards (deck g) @ cards_on_table g) \<and>
     set (cards (deck g) @ cards_on_table g) = {0..<52} \<and>
     deck_rect (deck g) = Rect 30 30 80 120 \<and>
     (\<forall>c<52. same_face (heap g ! c) (generate ! c)) \<and>
     (\<forall>c\<in>set (cards (deck g)). heap g ! c = generate ! c) \<and>
     (\<forall>c. held_card g = Some c \<longrightarrow> c \<in> set (cards_on_table g))"

section \<open>Concrete sessions\<close>

text \<open>
  The sessions at which the theorems below are instantiated. With the random numbers
  \<open>\<lambda>i. i\<close> every exchange of the shuffle is of an element with itself, so the deck
  keeps the order of creation and its top card is the card 51.
\<close>

definition g_held :: game where
  "g_held = handle_mouse_down (Game_init (\<lambda>i. i)) (50, 50) 1"

text \<open>Two decks outside any session: one of two cards, one empty.\<close>

definition d_two :: deck where
  "d_two = \<lparr>cards = [3, 7], deck_rect = Rect 30 30 80 120\<rparr>"

definition d_none :: deck where
  "d_none = \<lparr>cards = [], deck_rect = Rect 30 30 80 120\<rparr>"

text \<open>The session after 52 presses on the deck: the deck is empty.\<close>

definition g_drained :: game where
  "g_drained = run (Game_init (\<lambda>i. i)) (replicate 52 (MOUSEBUTTONDOWN (50, 50) 1))"

text \<open>
  A session with two overlapping cards on the table: the card 51 was drawn and dropped
  with the pointer at (300, 300), then the card 50 was drawn and dropped with the pointer
  at (320, 320), so 50 lies above 51.
\<close>

definition g_two :: game where
  "g_two = run (Game_init (\<lambda>i. i))
     [MOUSEBUTTONDOWN (50, 50) 1, MOUSEMOTION (300, 300), MOUSEBUTTONUP (300, 300) 1,
      MOUSEBUTTONDOWN (50, 50) 1, MOUSEMOTION (320, 320), MOUSEBUTTONUP (320, 320) 1]"

section \<open>Auxiliary facts\<close>

subsection \<open>Generation and shuffling\<close>

lemma length_generate: "length generate = 52"
  by (simp add: generate_def suits_def ranks_def)

lemma length_shuffle_from: "length (shuffle_from rnd k xs) = length xs"
  by (induction k arbitrary: xs) (simp_all add: Let_def)

lemma mset_shuffle_from: "k < length xs \<Longrightarrow> mset (shuffle_from rnd k xs) = mset xs"
proof (induction k arbitrary: xs)
  case 0
  show ?case by simp
next
  case (Suc k)
  let ?j = "rnd (Suc k) mod (Suc k + 1)"
  have j: "?j < length xs" using Suc.prems
    by (metis Suc_eq_plus1 less_Suc_eq_le mod_less_divisor order_le_less_trans zero_less_Suc)
  have "mset (xs[Suc k := xs ! ?j, ?j := xs ! Suc k]) = mset xs"
    using mset_swap [OF j Suc.prems] .
  moreover have "k < length (xs[Suc k := xs ! ?j, ?j := xs ! Suc k])"
    using Suc.prems by simp
  ultimately show ?case using Suc.IH by (simp add: Let_def)
qed

lemma mset_shuffle: "mset (shuffle rnd xs) = mset xs"
proof (cases xs)
  case Nil
  then show ?thesis by (simp add: shuffle_def)
next
  case (Cons a as)
  then show ?thesis by (simp add: shuffle_def mset_shuffle_from)
qed

lemma set_shuffle: "set (shuffle rnd xs) = set xs"
  using mset_shuffle [of rnd xs] by (rule mset_eq_setD)

lemma distinct_shuffle: "distinct (shuffle rnd xs) = distinct xs"
  using mset_shuffle [of rnd xs] by (rule mset_eq_imp_distinct_iff)

lemma length_shuffle: "length (shuffle rnd xs) = length xs"
  by (simp add: shuffle_def length_shuffle_from)

lemma shuffle_from_id: "k < length xs \<Longrightarrow> shuffle_from (\<lambda>i. i) k xs = xs"
  by (induction k arbitrary: xs) (simp_all add: Let_def)

lemma shuffle_id: "shuffle (\<lambda>i. i) xs = xs"
  by (cases xs) (simp_all add: shuffle_def shuffle_from_id)

subsection \<open>Hit-testing\<close>

lemma find_Some_set: "find P xs = Some x \<Longrightarrow> x \<in> set xs \<and> P x"
  by (induction xs) (auto split: if_splits)

lemma first_hit_Some:
  "first_hit store table p = Some c \<Longrightarrow> c \<in> set table \<and> collidepoint (rect (store ! c)) p"
  unfolding first_hit_def by (drule find_Some_set) simp

subsection \<open>The invariant holds in every session state\<close>

lemma inv_ref_lt:
  assumes "session_inv g" and "c \<in> set (cards (deck g)) \<or> c \<in> set (cards_on_table g)"
  shows "c < length (heap g)"
proof -
  have "set (cards (deck g)) \<union> set (cards_on_table g) = {0..<52}" and "length (heap g) = 52"
    using assms(1) by (simp_all add: session_inv_def)
  moreover have "c \<in> set (cards (deck g)) \<union> set (cards_on_table g)" using assms(2) by blast
  ultimately show ?thesis by simp
qed

lemma inv_disjoint:
  "session_inv g \<Longrightarrow> c \<in> set (cards_on_table g) \<Longrightarrow> c \<notin> set (cards (deck g))"
  by (auto simp: session_inv_def)

lemma session_inv_init: "session_inv (Game_init rnd)"
  by (simp add: session_inv_def Game_init_def Deck_init_def Deck_shuffle_def length_generate
      set_shuffle distinct_shuffle DECK_POS_def CARD_WIDTH_def CARD_HEIGHT_def same_face_def)

lemma session_inv_up: "session_inv g \<Longrightarrow> session_inv (handle_mouse_up g button)"
  by (simp add: session_inv_def handle_mouse_up_def)

lemma session_inv_motion:
  assumes "session_inv g"
  shows "session_inv (handle_mouse_motion g pos)"
proof (cases "held_card g")
  case None
  then show ?thesis using assms by (simp add: handle_mouse_motion_def)
next
  case (Some c)
  have c: "c \<in> set (cards_on_table g)" using assms Some by (simp add: session_inv_def)
  have nd: "c \<notin> set (cards (deck g))" using assms c by (auto simp: session_inv_def)
  have lt: "c < 52" using assms c by (auto simp: session_inv_def)
  show ?thesis using assms Some nd lt
    by (auto simp: handle_mouse_motion_def session_inv_def nth_list_update same_face_def)
qed

lemma session_inv_flip:
  assumes "session_inv g" and "c \<in> set (cards_on_table g)"
  shows "session_inv (g\<lparr>heap := (heap g)[c := flip (heap g ! c)]\<rparr>)"
proof -
  have nd: "c \<notin> set (cards (deck g))" using assms by (auto simp: session_inv_def)
  show ?thesis using assms nd
    by (auto simp: session_inv_def nth_list_update same_face_def flip_def)
qed

lemma session_inv_pick:
  assumes "session_inv g" and "c \<in> set (cards_on_table g)"
  shows "session_inv (g\<lparr>held_card := Some c,
           cards_on_table := remove1 c (cards_on_table g) @ [c], drag_offset := off\<rparr>)"
  using assms by (auto simp: session_inv_def dest: notin_set_remove1)

lemma session_inv_draw:
  assumes "session_inv g" and ne: "cards (deck g) \<noteq> []"
  shows "session_inv (g\<lparr>deck := (deck g)\<lparr>cards := butlast (cards (deck g))\<rparr>,
           heap := (heap g)[last (cards (deck g)) :=
                      (heap g ! last (cards (deck g)))\<lparr>rect := set_center (rect (heap g ! last (cards (deck g)))) pos\<rparr>],
           cards_on_table := cards_on_table g @ [last (cards (deck g))],
           held_card := Some (last (cards (deck g))),
           drag_offset := off\<rparr>)"
proof -
  obtain bs n where cs: "cards (deck g) = bs @ [n]"
    using ne by (metis append_butlast_last_id)
  have "n \<in> set (cards (deck g))" using cs by simp
  then have lt: "n < length (heap g)" using assms(1) by (simp add: inv_ref_lt)
  have nb: "\<And>c. c \<in> set bs \<Longrightarrow> c \<noteq> n" using assms(1) cs by (auto simp: session_inv_def)
  show ?thesis using assms cs lt nb
    by (auto simp: session_inv_def nth_list_update same_face_def set_center_def)
qed

lemma session_inv_down:
  assumes "session_inv g"
  shows "session_inv (handle_mouse_down g pos button)"
proof -
  have d: "(deck g)\<lparr>cards := cards (deck g)\<rparr> = deck g" by simp
  consider (draw) "button = 1" "collidepoint (deck_rect (deck g)) pos" "cards (deck g) \<noteq> []"
    | (empty) "button = 1" "collidepoint (deck_rect (deck g)) pos" "cards (deck g) = []"
    | (table) "button = 1" "\<not> collidepoint (deck_rect (deck g)) pos"
    | (right) "button = 3"
    | (other) "button \<noteq> 1" "button \<noteq> 3"
    by blast
  then show ?thesis
  proof cases
    case draw
    then show ?thesis
      using session_inv_draw [OF assms draw(3)]
      by (simp add: handle_mouse_down_def draw_card_def Let_def)
  next
    case empty
    then show ?thesis using assms by (simp add: handle_mouse_down_def draw_card_def)
  next
    case table
    then show ?thesis using assms session_inv_pick [OF assms]
      by (auto simp: handle_mouse_down_def split: option.splits dest!: first_hit_Some)
  next
    case right
    then show ?thesis using assms session_inv_flip [OF assms]
      by (auto simp: handle_mouse_down_def split: option.splits dest!: first_hit_Some)
  next
    case other
    then show ?thesis using assms by (simp add: handle_mouse_down_def)
  qed
qed

lemma session_inv_dispatch: "session_inv g \<Longrightarrow> session_inv (dispatch g ev)"
  by (cases ev) (simp_all add: session_inv_down session_inv_up session_inv_motion)

lemma session_inv_run: "session_inv g \<Longrightarrow> session_inv (run g evs)"
  unfolding run_def by (induction evs arbitrary: g) (simp_all add: session_inv_dispatch)

lemma session_inv_reachable: "session_inv (run (Game_init rnd) evs)"
  by (simp add: session_inv_init session_inv_run)

subsection \<open>The concrete sessions\<close>

lemma press_in_deck: "collidepoint (deck_rect (deck (Game_init rnd))) (50, 50)"
  by (simp add: Game_init_def Deck_init_def Deck_shuffle_def collidepoint_def Rect_def
      DECK_POS_def CARD_WIDTH_def CARD_HEIGHT_def)

lemma deck_init_id: "cards (deck (Game_init (\<lambda>i. i))) = [0..<52]"
  by (simp add: Game_init_def Deck_init_def Deck_shuffle_def shuffle_id length_generate)

lemma g_held_held: "held_card g_held = Some 51"
  using press_in_deck [of "\<lambda>i. i"] deck_init_id
  by (simp add: g_held_def handle_mouse_down_def draw_card_def)

subsection \<open>The generated cards\<close>

lemma generate_pairs:
  "map (\<lambda>c. (suit_char c, rank c)) generate = List.product (map fst suits) ranks"
  by (simp add: generate_def suits_def ranks_def Card_init_def)

lemma generate_face_down: "map is_flipped generate = replicate 52 False"
  by (simp add: generate_def suits_def ranks_def Card_init_def eval_nat_numeral)

lemma distinct_generate_pairs: "distinct (map (\<lambda>c. (rank c, suit_char c)) generate)"
  by (simp add: generate_def suits_def ranks_def Card_init_def)

subsection \<open>Sessions and repeated draws\<close>

lemma Game_init_eq:
  "Game_init rnd =
     \<lparr>heap = generate,
      deck = \<lparr>cards = shuffle rnd [0..<52], deck_rect = Rect 30 30 80 120\<rparr>,
      cards_on_table = [], held_card = None, drag_offset = (0, 0)\<rparr>"
  by (simp add: Game_init_def Deck_init_def Deck_shuffle_def length_generate DECK_POS_def
      CARD_WIDTH_def CARD_HEIGHT_def)

lemma draw_n_empty: "cards d = [] \<Longrightarrow> draw_n k d = (replicate k None, d)"
  by (induction k) (simp_all add: draw_card_def)

lemma draw_n_all:
  "cards d = xs \<Longrightarrow>
   draw_n (length xs + k) d = (map Some (rev xs) @ replicate k None, d\<lparr>cards := []\<rparr>)"
proof (induction xs arbitrary: d rule: rev_induct)
  case Nil
  then show ?case by (simp add: draw_n_empty)
next
  case (snoc x xs)
  have "cards (d\<lparr>cards := xs\<rparr>) = xs" by simp
  from snoc.IH [OF this] snoc.prems show ?case
    by (simp add: draw_card_def)
qed

lemma distinct_generate: "distinct generate"
  using distinct_generate_pairs by (simp add: distinct_map)

lemma distinct_deref:
  assumes "distinct cs" and "\<forall>c\<in>set cs. c < length generate"
  shows "distinct (map (\<lambda>c. generate ! c) cs)"
proof -
  have "inj_on (\<lambda>c. generate ! c) (set cs)"
    using assms(2) distinct_generate by (auto simp: inj_on_def nth_eq_iff_index_eq)
  then show ?thesis using assms(1) by (simp add: distinct_map)
qed

lemma fresh_cards:
  "length (cards (deck (Game_init rnd))) = 52 \<and> distinct (cards (deck (Game_init rnd))) \<and>
   set (cards (deck (Game_init rnd))) = {0..<52}"
  by (simp add: Game_init_def Deck_init_def Deck_shuffle_def length_shuffle distinct_shuffle
      set_shuffle length_generate)

lemma g_held_table: "cards_on_table g_held = [51]"
  using press_in_deck [of "\<lambda>i. i"] deck_init_id
  by (simp add: g_held_def handle_mouse_down_def draw_card_def Game_init_eq)

lemma g_held_run: "run (Game_init (\<lambda>i. i)) [MOUSEBUTTONDOWN (50, 50) 1] = g_held"
  by (simp add: run_def g_held_def)

subsection \<open>A press on the deck\<close>

lemma generate_members:
  "c \<in> set generate \<Longrightarrow>
   \<not> is_flipped c \<and> rect c = Rect 0 0 80 120 \<and> back_image c = create_back_image"
  by (auto simp: generate_def Card_init_def get_rect_def CARD_WIDTH_def CARD_HEIGHT_def)

lemma generate_nth:
  "c < 52 \<Longrightarrow>
   \<not> is_flipped (generate ! c) \<and> rect (generate ! c) = Rect 0 0 80 120 \<and>
   back_image (generate ! c) = create_back_image"
  by (rule generate_members) (simp add: length_generate)

lemma inv_deck_card:
  assumes "session_inv g" and "c \<in> set (cards (deck g))"
  shows "c < length (heap g)" and "\<not> is_flipped (heap g ! c)"
    and "rect (heap g ! c) = Rect 0 0 80 120" and "c \<notin> set (cards_on_table g)"
proof -
  show lt: "c < length (heap g)" using assms by (simp add: inv_ref_lt)
  have "length (heap g) = 52" using assms(1) by (simp add: session_inv_def)
  with lt have c52: "c < 52" by simp
  have "heap g ! c = generate ! c" using assms by (simp add: session_inv_def)
  with generate_nth [OF c52]
  show "\<not> is_flipped (heap g ! c)" and "rect (heap g ! c) = Rect 0 0 80 120" by simp_all
  show "c \<notin> set (cards_on_table g)" using assms inv_disjoint by blast
qed

lemma down_deck_empty:
  "collidepoint (deck_rect (deck g)) pos \<Longrightarrow> cards (deck g) = [] \<Longrightarrow>
   handle_mouse_down g pos 1 = g"
  by (simp add: handle_mouse_down_def draw_card_def)

lemma down_deck_draw:
  assumes "collidepoint (deck_rect (deck g)) pos" and "cards (deck g) \<noteq> []"
    and "n = last (cards (deck g))"
  shows "handle_mouse_down g pos 1 =
     g\<lparr>deck := (deck g)\<lparr>cards := butlast (cards (deck g))\<rparr>,
       heap := (heap g)[n := (heap g ! n)\<lparr>rect := set_center (rect (heap g ! n)) pos\<rparr>],
       cards_on_table := cards_on_table g @ [n],
       held_card := Some n,
       drag_offset := (fst pos - rect_x (set_center (rect (heap g ! n)) pos),
                       snd pos - rect_y (set_center (rect (heap g ! n)) pos))\<rparr>"
  using assms by (simp add: handle_mouse_down_def draw_card_def Let_def)

lemma run_snoc: "run g (evs @ [e]) = dispatch (run g evs) e"
  by (simp add: run_def)

lemma inv_deck_rect: "session_inv g \<Longrightarrow> deck_rect (deck g) = Rect 30 30 80 120"
  by (simp add: session_inv_def)

lemma collide_50: "session_inv g \<Longrightarrow> collidepoint (deck_rect (deck g)) (50, 50)"
  by (simp add: inv_deck_rect collidepoint_def Rect_def)

lemma presses_deck:
  "length (cards (deck (run (Game_init rnd) (replicate n (MOUSEBUTTONDOWN (50, 50) 1))))) = 52 - n"
proof (induction n)
  case 0
  show ?case using fresh_cards [of rnd] by (simp add: run_def)
next
  case (Suc n)
  let ?g = "run (Game_init rnd) (replicate n (MOUSEBUTTONDOWN (50, 50) 1))"
  have c: "collidepoint (deck_rect (deck ?g)) (50, 50)"
    by (simp add: collide_50 session_inv_reachable)
  have rs: "replicate (Suc n) (MOUSEBUTTONDOWN (50, 50) 1)
      = replicate n (MOUSEBUTTONDOWN (50, 50) 1) @ [MOUSEBUTTONDOWN (50, 50) 1]"
    by (simp add: replicate_append_same)
  have "run (Game_init rnd) (replicate (Suc n) (MOUSEBUTTONDOWN (50, 50) 1))
      = handle_mouse_down ?g (50, 50) 1"
    by (simp only: rs run_snoc dispatch.simps)
  moreover have "length (cards (deck (handle_mouse_down ?g (50, 50) 1))) = 52 - Suc n"
  proof (cases "cards (deck ?g) = []")
    case True
    then show ?thesis using Suc.IH c by (simp add: down_deck_empty)
  next
    case False
    then show ?thesis using Suc.IH down_deck_draw [OF c False refl] by simp
  qed
  ultimately show ?case by simp
qed

lemma g_drained_deck: "cards (deck g_drained) = []"
  using presses_deck [of "\<lambda>i. i" 52] by (simp add: g_drained_def)

subsection \<open>A press on the table\<close>

lemma generate_51: "rect (generate ! 51) = Rect 0 0 80 120" "\<not> is_flipped (generate ! 51)"
  using generate_nth [of 51] by simp_all

lemma generate_50: "rect (generate ! 50) = Rect 0 0 80 120" "\<not> is_flipped (generate ! 50)"
  using generate_nth [of 50] by simp_all

lemma upt_52: "[0..<52] = [0..<50] @ [50, 51]"
  using upt_Suc_append [of 0 51] upt_Suc_append [of 0 50] by simp

lemma g_two_state:
  "cards_on_table g_two = [51, 50] \<and> held_card g_two = None \<and>
   cards (deck g_two) = [0..<50] \<and> deck_rect (deck g_two) = Rect 30 30 80 120 \<and>
   rect (heap g_two ! 51) = Rect 260 240 80 120 \<and>
   rect (heap g_two ! 50) = Rect 280 260 80 120 \<and>
   \<not> is_flipped (heap g_two ! 51) \<and> \<not> is_flipped (heap g_two ! 50)"
  by (simp add: g_two_def run_def handle_mouse_down_def handle_mouse_up_def
      handle_mouse_motion_def Game_init_eq shuffle_id upt_52 draw_card_def collidepoint_def
      set_center_def length_generate generate_51 generate_50 Rect_def butlast_append)


lemma find_append_none: "find P xs = None \<Longrightarrow> find P (xs @ ys) = find P ys"
  by (induction xs) (simp_all split: if_splits)

lemma find_rev_none: "(\<forall>c\<in>set xs. \<not> P c) \<Longrightarrow> find P (rev xs) = None"
  by (simp add: find_None_iff)

lemma find_rev_topmost:
  assumes "i < length xs" and "P (xs ! i)"
    and "\<forall>j. i < j \<and> j < length xs \<longrightarrow> \<not> P (xs ! j)"
  shows "find P (rev xs) = Some (xs ! i)"
proof -
  have above: "\<forall>c\<in>set (drop (Suc i) xs). \<not> P c"
  proof
    fix c assume "c \<in> set (drop (Suc i) xs)"
    then obtain k where "k < length (drop (Suc i) xs)" and "c = drop (Suc i) xs ! k"
      by (auto simp: in_set_conv_nth)
    then have "c = xs ! (Suc i + k)" and "Suc i + k < length xs" by auto
    then show "\<not> P c" using assms(3) by simp
  qed
  have "xs = take i xs @ xs ! i # drop (Suc i) xs"
    using assms(1) by (rule id_take_nth_drop)
  then have "rev xs = rev (drop (Suc i) xs) @ xs ! i # rev (take i xs)"
    by (metis rev.simps(2) rev_append append_Cons append_Nil append_assoc)
  then have "find P (rev xs) = find P (rev (drop (Suc i) xs) @ xs ! i # rev (take i xs))"
    by simp
  also have "\<dots> = Some (xs ! i)"
    using find_rev_none [OF above] assms(2) by (simp add: find_append_none)
  finally show ?thesis .
qed

lemma remove1_nth:
  assumes "distinct xs" and "i < length xs"
  shows "remove1 (xs ! i) xs = take i xs @ drop (Suc i) xs"
proof -
  have split: "xs = take i xs @ xs ! i # drop (Suc i) xs"
    using assms(2) by (rule id_take_nth_drop)
  have "xs ! i \<notin> set (take i xs)"
    using assms split by (metis distinct_append disjoint_insert(1) list.simps(15))
  then have "remove1 (xs ! i) (take i xs @ xs ! i # drop (Suc i) xs)
      = take i xs @ drop (Suc i) xs"
    by (simp add: remove1_append)
  then show ?thesis using split by simp
qed

lemma down_table:
  "\<not> collidepoint (deck_rect (deck g)) pos \<Longrightarrow>
   handle_mouse_down g pos 1 =
     (case first_hit (heap g) (cards_on_table g) pos of
        None \<Rightarrow> g
      | Some c \<Rightarrow>
          g\<lparr>held_card := Some c,
            cards_on_table := remove1 c (cards_on_table g) @ [c],
            drag_offset :=
              (fst pos - rect_x (rect (heap g ! c)), snd pos - rect_y (rect (heap g ! c)))\<rparr>)"
  by (simp add: handle_mouse_down_def)

subsection \<open>Dragging\<close>

lemma motion_idle: "held_card g = None \<Longrightarrow> handle_mouse_motion g q = g"
  by (simp add: handle_mouse_motion_def)

lemma motion_held:
  assumes "held_card g = Some c" and "c < length (heap g)"
  shows "rect_x (rect (heap (handle_mouse_motion g q) ! c)) = fst q - fst (drag_offset g)"
    and "rect_y (rect (heap (handle_mouse_motion g q) ! c)) = snd q - snd (drag_offset g)"
    and "is_flipped (heap (handle_mouse_motion g q) ! c) = is_flipped (heap g ! c)"
    and "same_face (heap (handle_mouse_motion g q) ! c) (heap g ! c)"
    and "\<forall>d. d \<noteq> c \<longrightarrow> heap (handle_mouse_motion g q) ! d = heap g ! d"
    and "length (heap (handle_mouse_motion g q)) = length (heap g)"
    and "deck (handle_mouse_motion g q) = deck g"
    and "cards_on_table (handle_mouse_motion g q) = cards_on_table g"
    and "held_card (handle_mouse_motion g q) = Some c"
    and "drag_offset (handle_mouse_motion g q) = drag_offset g"
  using assms by (simp_all add: handle_mouse_motion_def same_face_def)

lemma same_face_trans: "same_face a b \<Longrightarrow> same_face b c \<Longrightarrow> same_face a c"
  by (simp add: same_face_def)

lemma motions_held:
  assumes "held_card g = Some c" and "c < length (heap g)"
  shows "is_flipped (heap (run g (map MOUSEMOTION qs)) ! c) = is_flipped (heap g ! c) \<and>
     same_face (heap (run g (map MOUSEMOTION qs)) ! c) (heap g ! c) \<and>
     (\<forall>d. d \<noteq> c \<longrightarrow> heap (run g (map MOUSEMOTION qs)) ! d = heap g ! d) \<and>
     length (heap (run g (map MOUSEMOTION qs))) = length (heap g) \<and>
     deck (run g (map MOUSEMOTION qs)) = deck g \<and>
     cards_on_table (run g (map MOUSEMOTION qs)) = cards_on_table g \<and>
     held_card (run g (map MOUSEMOTION qs)) = Some c \<and>
     drag_offset (run g (map MOUSEMOTION qs)) = drag_offset g"
proof (induction qs rule: rev_induct)
  case Nil
  show ?case using assms(1) by (simp add: run_def same_face_def)
next
  case (snoc q qs)
  let ?g = "run g (map MOUSEMOTION qs)"
  have step: "run g (map MOUSEMOTION (qs @ [q])) = handle_mouse_motion ?g q"
    by (simp add: run_snoc)
  have h: "held_card ?g = Some c" and l: "c < length (heap ?g)"
    using snoc.IH assms(2) by simp_all
  show ?case
    unfolding step using motion_held [OF h l, of q] snoc.IH
    by (auto intro: same_face_trans)
qed

lemma press_picks:
  assumes "session_inv g" and "held_card g = None"
    and "held_card (handle_mouse_down g p 1) = Some c"
  shows "drag_offset (handle_mouse_down g p 1) =
           (fst p - rect_x (rect (heap (handle_mouse_down g p 1) ! c)),
            snd p - rect_y (rect (heap (handle_mouse_down g p 1) ! c)))"
    and "\<forall>d. d \<noteq> c \<longrightarrow> heap (handle_mouse_down g p 1) ! d = heap g ! d"
proof -
  let ?g1 = "handle_mouse_down g p 1"
  have "drag_offset ?g1 = (fst p - rect_x (rect (heap ?g1 ! c)), snd p - rect_y (rect (heap ?g1 ! c)))
      \<and> (\<forall>d. d \<noteq> c \<longrightarrow> heap ?g1 ! d = heap g ! d)"
  proof (cases "collidepoint (deck_rect (deck g)) p")
    case True
    show ?thesis
    proof (cases "cards (deck g) = []")
      case True
      with \<open>collidepoint (deck_rect (deck g)) p\<close> assms(2,3) show ?thesis
        by (simp add: down_deck_empty)
    next
      case False
      have lt: "last (cards (deck g)) < length (heap g)"
        using inv_deck_card(1) [OF assms(1)] False by simp
      show ?thesis
        using down_deck_draw [OF True False refl] assms(3) lt by auto
    qed
  next
    case False
    show ?thesis
      using assms(2,3) down_table [OF False]
      by (auto split: option.splits)
  qed
  then show "drag_offset ?g1 = (fst p - rect_x (rect (heap ?g1 ! c)), snd p - rect_y (rect (heap ?g1 ! c)))"
    and "\<forall>d. d \<noteq> c \<longrightarrow> heap ?g1 ! d = heap g ! d" by simp_all
qed

lemma rect_eqI:
  "rect_x r = a \<Longrightarrow> rect_y r = b \<Longrightarrow> rect_w r = c \<Longrightarrow> rect_h r = d \<Longrightarrow> r = Rect a b c d"
  by (cases r) (simp add: Rect_def)

lemma g_two_pick:
  "handle_mouse_down g_two (270, 250) 1 =
     g_two\<lparr>held_card := Some 51, cards_on_table := [50, 51], drag_offset := (10, 10)\<rparr>"
proof -
  have d: "\<not> collidepoint (deck_rect (deck g_two)) (270, 250)"
    using g_two_state by (simp add: collidepoint_def Rect_def)
  have "first_hit (heap g_two) (cards_on_table g_two) (270, 250) = Some 51"
    using g_two_state by (simp add: first_hit_def collidepoint_def Rect_def)
  then show ?thesis using g_two_state by (simp add: down_table [OF d] Rect_def)
qed

subsection \<open>Flipping\<close>

lemma flip_flip: "flip (flip k) = k"
  by (simp add: flip_def)

lemma rect_flip_update: "rect (h[c := flip (h ! c)] ! x) = rect (h ! x)"
  by (cases "c < length h") (auto simp: nth_list_update flip_def list_update_beyond)

lemma first_hit_flip:
  "first_hit (h[c := flip (h ! c)]) t p = first_hit h t p"
  unfolding first_hit_def by (rule find_cong) (simp_all add: rect_flip_update)

lemma down_right:
  "handle_mouse_down g pos 3 =
     (case first_hit (heap g) (cards_on_table g) pos of
        None \<Rightarrow> g
      | Some c \<Rightarrow> g\<lparr>heap := (heap g)[c := flip (heap g ! c)]\<rparr>)"
  by (simp add: handle_mouse_down_def)

lemma down_right_twice: "handle_mouse_down (handle_mouse_down g pos 3) pos 3 = g"
proof (cases "first_hit (heap g) (cards_on_table g) pos")
  case None
  then show ?thesis by (simp add: down_right)
next
  case (Some c)
  then show ?thesis
    by (cases "c < length (heap g)")
      (simp_all add: down_right first_hit_flip flip_flip list_update_beyond)
qed

subsection \<open>Independence of the random numbers\<close>

lemma shuffle_from_cong:
  "(\<And>i. rnd i mod (i + 1) = rnd' i mod (i + 1)) \<Longrightarrow>
   shuffle_from rnd k xs = shuffle_from rnd' k xs"
  by (induction k arbitrary: xs) (simp_all add: Let_def)

lemma shuffle_cong:
  "(\<And>i. rnd i mod (i + 1) = rnd' i mod (i + 1)) \<Longrightarrow> shuffle rnd xs = shuffle rnd' xs"
  unfolding shuffle_def by (rule shuffle_from_cong)

lemma shuffle_twice_id: "shuffle (\<lambda>i. i + (i + 1)) xs = shuffle (\<lambda>i. i) xs"
  by (rule shuffle_cong) (simp only: mod_add_self2)

lemma Game_init_by_shuffle:
  "Game_init rnd =
     (Game_init (\<lambda>i. i))\<lparr>deck := Deck_shuffle rnd (deck (Game_init (\<lambda>i. i)))\<rparr>"
  by (simp add: Game_init_eq Deck_shuffle_def shuffle_id)

subsection \<open>Rendering the deck\<close>



section \<open>Properties of the program\<close>

text \<open>
  Claim C5. A freshly generated deck has exactly 52 cards: the 13 ranks and the 4 suits
  are pairwise different, the (suit, rank) pairs of the generated cards are the product
  of the suits and the ranks, each pair once, and every card is face-down. The deck of a
  new session refers to each of these 52 cards once.
\<close>

theorem C5_fresh_deck:
  "length generate = 52 \<and>
   length ranks = 13 \<and> distinct ranks \<and>
   length (map fst suits) = 4 \<and> distinct (map fst suits) \<and>
   map (\<lambda>c. (suit_char c, rank c)) generate = List.product (map fst suits) ranks \<and>
   distinct (map (\<lambda>c. (rank c, suit_char c)) generate) \<and>
   map is_flipped generate = replicate 52 False \<and>
   heap (Game_init rnd) = generate \<and>
   mset (cards (deck (Game_init rnd))) = mset [0..<52] \<and>
   length (cards (deck (Game_init rnd))) = 52"
proof -
  have r: "length ranks = 13 \<and> distinct ranks" by (simp add: ranks_def)
  have s: "length (map fst suits) = 4 \<and> distinct (map fst suits)" by (simp add: suits_def)
  have g: "heap (Game_init rnd) = generate \<and>
     mset (cards (deck (Game_init rnd))) = mset [0..<52] \<and>
     length (cards (deck (Game_init rnd))) = 52"
    by (simp add: Game_init_def Deck_init_def Deck_shuffle_def mset_shuffle length_shuffle
        length_generate)
  show ?thesis
    using distinct_generate_pairs r s g length_generate generate_pairs generate_face_down
    by blast
qed

text \<open>
  Claim C7. Shuffling a deck, whatever the random numbers, leaves the multiset of its
  cards, hence their set and their number, as they were; the deck's region is not
  touched. The random numbers act on a session through the order of the shuffled deck
  and through nothing else: a new session is the session of the unshuffled deck with
  its deck shuffled; two shuffles of a deck that give the same order give the same deck;
  and two sessions whose random numbers shuffle the 52 cards into the same order are the
  same session at the start and after every sequence of events.
\<close>

theorem C7_shuffle_permutation:
  "mset (cards (Deck_shuffle rnd d)) = mset (cards d) \<and>
   set (cards (Deck_shuffle rnd d)) = set (cards d) \<and>
   length (cards (Deck_shuffle rnd d)) = length (cards d) \<and>
   deck_rect (Deck_shuffle rnd d) = deck_rect d \<and>
   Game_init rnd =
     (Game_init (\<lambda>i. i))\<lparr>deck := Deck_shuffle rnd (deck (Game_init (\<lambda>i. i)))\<rparr> \<and>
   (cards (Deck_shuffle rnd d) = cards (Deck_shuffle rnd' d) \<longrightarrow>
      Deck_shuffle rnd d = Deck_shuffle rnd' d) \<and>
   (shuffle rnd [0..<52] = shuffle rnd' [0..<52] \<longrightarrow>
      Game_init rnd = Game_init rnd' \<and>
      run (Game_init rnd) evs = run (Game_init rnd') evs)"
proof -
  have perm: "mset (cards (Deck_shuffle rnd d)) = mset (cards d) \<and>
     set (cards (Deck_shuffle rnd d)) = set (cards d) \<and>
     length (cards (Deck_shuffle rnd d)) = length (cards d) \<and>
     deck_rect (Deck_shuffle rnd d) = deck_rect d"
    by (simp add: Deck_shuffle_def mset_shuffle set_shuffle length_shuffle)
  have deck_only: "cards (Deck_shuffle rnd d) = cards (Deck_shuffle rnd' d) \<longrightarrow>
      Deck_shuffle rnd d = Deck_shuffle rnd' d"
    by (simp add: Deck_shuffle_def)
  have session: "shuffle rnd [0..<52] = shuffle rnd' [0..<52] \<longrightarrow>
      Game_init rnd = Game_init rnd' \<and>
      run (Game_init rnd) evs = run (Game_init rnd') evs"
    by (simp add: Game_init_eq)
  show ?thesis using perm Game_init_by_shuffle [of rnd] deck_only session by blast
qed

theorem C7_shuffle_permutation_witness:
  "(\<lambda>i::nat. i) 1 \<noteq> (\<lambda>i. i + (i + 1)) 1 \<and>
   cards (Deck_shuffle (\<lambda>i. i) d_two) = cards (Deck_shuffle (\<lambda>i. i + (i + 1)) d_two) \<and>
   Deck_shuffle (\<lambda>i. i) d_two = Deck_shuffle (\<lambda>i. i + (i + 1)) d_two \<and>
   shuffle (\<lambda>i. i) [0..<52] = shuffle (\<lambda>i. i + (i + 1)) [0..<52] \<and>
   run (Game_init (\<lambda>i. i + (i + 1)))
     [MOUSEBUTTONDOWN (50, 50) 1, MOUSEMOTION (300, 300), MOUSEBUTTONUP (300, 300) 1,
      MOUSEBUTTONDOWN (50, 50) 1, MOUSEMOTION (320, 320), MOUSEBUTTONUP (320, 320) 1] = g_two"
proof -
  have c: "cards (Deck_shuffle (\<lambda>i. i) d_two) = cards (Deck_shuffle (\<lambda>i. i + (i + 1)) d_two)"
    using shuffle_twice_id [of "cards d_two"] by (simp add: Deck_shuffle_def)
  have s: "shuffle (\<lambda>i. i) [0..<52] = shuffle (\<lambda>i. i + (i + 1)) [0..<52]"
    by (rule shuffle_twice_id [symmetric])
  note inst = C7_shuffle_permutation [of "\<lambda>i. i" d_two "\<lambda>i. i + (i + 1)"
      "[MOUSEBUTTONDOWN (50, 50) 1, MOUSEMOTION (300, 300), MOUSEBUTTONUP (300, 300) 1,
        MOUSEBUTTONDOWN (50, 50) 1, MOUSEMOTION (320, 320), MOUSEBUTTONUP (320, 320) 1]"]
  have d: "Deck_shuffle (\<lambda>i. i) d_two = Deck_shuffle (\<lambda>i. i + (i + 1)) d_two"
    using inst c by blast
  have r: "run (Game_init (\<lambda>i. i + (i + 1)))
     [MOUSEBUTTONDOWN (50, 50) 1, MOUSEMOTION (300, 300), MOUSEBUTTONUP (300, 300) 1,
      MOUSEBUTTONDOWN (50, 50) 1, MOUSEMOTION (320, 320), MOUSEBUTTONUP (320, 320) 1] = g_two"
    using inst s unfolding g_two_def by simp
  show ?thesis using c d s r by simp
qed

text \<open>
  Claim C10. The release of a button other than the primary one changes nothing in the
  session; the release of the primary button leaves no card held; and a held card is
  released by a button-up event exactly when the button is the primary one.
\<close>

theorem C10_other_button_up:
  "(button \<noteq> 1 \<longrightarrow> dispatch g (MOUSEBUTTONUP pos button) = g) \<and>
   held_card (dispatch g (MOUSEBUTTONUP pos 1)) = None \<and>
   (held_card g = Some c \<longrightarrow>
      (held_card (dispatch g (MOUSEBUTTONUP pos button)) = None \<longleftrightarrow> button = 1))"
  by (simp add: handle_mouse_up_def)

theorem C10_other_button_up_witness:
  "(3::int) \<noteq> 1 \<and> dispatch g_held (MOUSEBUTTONUP (50, 50) 3) = g_held \<and>
   held_card g_held = Some 51 \<and>
   held_card (dispatch g_held (MOUSEBUTTONUP (50, 50) 3)) \<noteq> None \<and>
   held_card (dispatch g_held (MOUSEBUTTONUP (50, 50) 1)) = None"
  using C10_other_button_up [of 3 g_held "(50, 50)" 51]
    C10_other_button_up [of 1 g_held "(50, 50)" 51] g_held_held
  by simp

text \<open>
  Claim C6. Drawing from a non-empty deck returns its last card and leaves the cards
  before it, one fewer; drawing from an empty deck returns no card and the deck as it
  was. So \<open>52 + k\<close> draws from the deck of a new session return its 52 cards from
  the last to the first, which are 52 different objects carrying 52 different cards, and
  then \<open>k\<close> times no card.
\<close>

theorem C6_draw_card:
  "(cards d \<noteq> [] \<longrightarrow>
      fst (draw_card d) = Some (last (cards d)) \<and>
      cards d = cards (snd (draw_card d)) @ [last (cards d)] \<and>
      length (cards (snd (draw_card d))) + 1 = length (cards d) \<and>
      deck_rect (snd (draw_card d)) = deck_rect d) \<and>
   (cards d = [] \<longrightarrow> draw_card d = (None, d)) \<and>
   draw_n (52 + k) (deck (Game_init rnd)) =
     (map Some (rev (cards (deck (Game_init rnd)))) @ replicate k None,
      (deck (Game_init rnd))\<lparr>cards := []\<rparr>) \<and>
   length (cards (deck (Game_init rnd))) = 52 \<and>
   distinct (rev (cards (deck (Game_init rnd)))) \<and>
   distinct (map (\<lambda>c. heap (Game_init rnd) ! c) (rev (cards (deck (Game_init rnd)))))"
proof -
  let ?fresh = "deck (Game_init rnd)"
  have one: "cards d \<noteq> [] \<longrightarrow>
      fst (draw_card d) = Some (last (cards d)) \<and>
      cards d = cards (snd (draw_card d)) @ [last (cards d)] \<and>
      length (cards (snd (draw_card d))) + 1 = length (cards d) \<and>
      deck_rect (snd (draw_card d)) = deck_rect d"
    by (simp add: draw_card_def)
  have none: "cards d = [] \<longrightarrow> draw_card d = (None, d)"
    by (simp add: draw_card_def)
  have len: "length (cards ?fresh) = 52" and dist: "distinct (cards ?fresh)"
    and st: "set (cards ?fresh) = {0..<52}"
    using fresh_cards [of rnd] by simp_all
  have all: "draw_n (52 + k) ?fresh =
     (map Some (rev (cards ?fresh)) @ replicate k None, ?fresh\<lparr>cards := []\<rparr>)"
    using draw_n_all [of ?fresh "cards ?fresh" k] len by simp
  have "heap (Game_init rnd) = generate"
    by (simp add: Game_init_def Deck_init_def)
  moreover have "distinct (map (\<lambda>c. generate ! c) (rev (cards ?fresh)))"
    using dist st by (intro distinct_deref) (simp_all add: length_generate)
  ultimately have vals: "distinct (map (\<lambda>c. heap (Game_init rnd) ! c) (rev (cards ?fresh)))"
    by simp
  show ?thesis using one none all len dist vals by simp
qed

theorem C6_draw_card_witness:
  "cards d_two \<noteq> [] \<and> draw_card d_two = (Some 7, d_two\<lparr>cards := [3]\<rparr>) \<and>
   cards d_none = [] \<and> draw_card d_none = (None, d_none)"
proof -
  have a: "cards d_two \<noteq> []" and b: "cards d_none = []"
    by (simp_all add: d_two_def d_none_def)
  have "fst (draw_card d_two) = Some 7 \<and> cards (snd (draw_card d_two)) = [3] \<and>
    deck_rect (snd (draw_card d_two)) = deck_rect d_two"
    using C6_draw_card [of d_two 0 "\<lambda>i. i"] by (simp add: d_two_def)
  then have "draw_card d_two = (Some 7, d_two\<lparr>cards := [3]\<rparr>)"
    by (cases "draw_card d_two") (simp add: d_two_def)
  moreover have "draw_card d_none = (None, d_none)"
    using C6_draw_card [of d_none 0 "\<lambda>i. i"] b by simp
  ultimately show ?thesis using a b by simp
qed

text \<open>
  Claim C8. After any sequence of events from the start of a session, with any outcome of
  the shuffle, a held card is one of the cards on the table.
\<close>

theorem C8_held_card_on_table:
  "held_card (run (Game_init rnd) evs) = Some c \<Longrightarrow>
   c \<in> set (cards_on_table (run (Game_init rnd) evs))"
  using session_inv_reachable [of rnd evs] by (simp add: session_inv_def)

theorem C8_held_card_on_table_witness:
  "held_card (run (Game_init (\<lambda>i. i)) [MOUSEBUTTONDOWN (50, 50) 1]) = Some 51 \<and>
   51 \<in> set (cards_on_table (run (Game_init (\<lambda>i. i)) [MOUSEBUTTONDOWN (50, 50) 1]))"
proof -
  have h: "held_card (run (Game_init (\<lambda>i. i)) [MOUSEBUTTONDOWN (50, 50) 1]) = Some 51"
    by (simp add: g_held_run g_held_held)
  from C8_held_card_on_table [OF h] h show ?thesis by simp
qed

text \<open>
  Claim C1. In any state of a session, a press of the primary button at a point of the
  deck's region does the following. If the deck is empty the state stays as it is,
  whatever lies on the table. Otherwise the last card of the deck leaves it, the deck
  being one card shorter and otherwise the same; the card's rectangle, of the card's
  size, gets its centre at the press point; the card is appended to the table, whose
  other cards keep their places; it is the held card, with the offset from its new
  origin to the press point, which is (40, 60); it was face-down and stays so; and no
  other card changes. The cards under the press point play no part in either case.
\<close>

theorem C1_press_on_deck:
  assumes "g = run (Game_init rnd) evs"
    and "collidepoint (deck_rect (deck g)) pos"
    and "g' = handle_mouse_down g pos 1"
  shows "(cards (deck g) = [] \<longrightarrow> g' = g) \<and>
         (cards (deck g) \<noteq> [] \<longrightarrow>
            (let n = last (cards (deck g)) in
               cards (deck g) = cards (deck g') @ [n] \<and>
               length (cards (deck g')) + 1 = length (cards (deck g)) \<and>
               deck_rect (deck g') = deck_rect (deck g) \<and>
               center (rect (heap g' ! n)) = pos \<and>
               rect (heap g' ! n) = Rect (fst pos - 40) (snd pos - 60) 80 120 \<and>
               cards_on_table g' = cards_on_table g @ [n] \<and>
               held_card g' = Some n \<and>
               drag_offset g' =
                 (fst pos - rect_x (rect (heap g' ! n)), snd pos - rect_y (rect (heap g' ! n))) \<and>
               drag_offset g' = (40, 60) \<and>
               \<not> is_flipped (heap g ! n) \<and> \<not> is_flipped (heap g' ! n) \<and>
               length (heap g') = length (heap g) \<and>
               (\<forall>c. c \<noteq> n \<longrightarrow> heap g' ! c = heap g ! c)))"
proof -
  have inv: "session_inv g" using assms(1) by (simp add: session_inv_reachable)
  have empty: "cards (deck g) = [] \<longrightarrow> g' = g"
    using assms(2,3) by (simp add: down_deck_empty)
  have draw: "let n = last (cards (deck g)) in
               cards (deck g) = cards (deck g') @ [n] \<and>
               length (cards (deck g')) + 1 = length (cards (deck g)) \<and>
               deck_rect (deck g') = deck_rect (deck g) \<and>
               center (rect (heap g' ! n)) = pos \<and>
               rect (heap g' ! n) = Rect (fst pos - 40) (snd pos - 60) 80 120 \<and>
               cards_on_table g' = cards_on_table g @ [n] \<and>
               held_card g' = Some n \<and>
               drag_offset g' =
                 (fst pos - rect_x (rect (heap g' ! n)), snd pos - rect_y (rect (heap g' ! n))) \<and>
               drag_offset g' = (40, 60) \<and>
               \<not> is_flipped (heap g ! n) \<and> \<not> is_flipped (heap g' ! n) \<and>
               length (heap g') = length (heap g) \<and>
               (\<forall>c. c \<noteq> n \<longrightarrow> heap g' ! c = heap g ! c)"
    if ne: "cards (deck g) \<noteq> []"
  proof -
    define n where "n = last (cards (deck g))"
    have mem: "n \<in> set (cards (deck g))" using ne by (simp add: n_def)
    note card = inv_deck_card [OF inv mem]
    have g': "g' = g\<lparr>deck := (deck g)\<lparr>cards := butlast (cards (deck g))\<rparr>,
       heap := (heap g)[n := (heap g ! n)\<lparr>rect := set_center (rect (heap g ! n)) pos\<rparr>],
       cards_on_table := cards_on_table g @ [n],
       held_card := Some n,
       drag_offset := (fst pos - rect_x (set_center (rect (heap g ! n)) pos),
                       snd pos - rect_y (set_center (rect (heap g ! n)) pos))\<rparr>"
      using down_deck_draw [OF assms(2) ne n_def] assms(3) by simp
    have r: "rect (heap g' ! n) = Rect (fst pos - 40) (snd pos - 60) 80 120"
      using card(1,3) by (simp add: g' set_center_def Rect_def)
    have "cards (deck g) = cards (deck g') @ [n]"
      using ne by (simp add: g' n_def)
    moreover have "length (cards (deck g')) + 1 = length (cards (deck g))"
      using ne by (simp add: g')
    moreover have "deck_rect (deck g') = deck_rect (deck g)" by (simp add: g')
    moreover have "center (rect (heap g' ! n)) = pos"
      by (simp add: r center_def Rect_def)
    moreover have "cards_on_table g' = cards_on_table g @ [n]" by (simp add: g')
    moreover have "held_card g' = Some n" by (simp add: g')
    moreover have "drag_offset g' =
        (fst pos - rect_x (rect (heap g' ! n)), snd pos - rect_y (rect (heap g' ! n)))"
      using card(1) by (simp add: g')
    moreover have "drag_offset g' = (40, 60)"
      using card(3) by (simp add: g' set_center_def Rect_def)
    moreover have "\<not> is_flipped (heap g ! n)" by (rule card(2))
    moreover have "\<not> is_flipped (heap g' ! n)" using card(1,2) by (simp add: g')
    moreover have "length (heap g') = length (heap g)" by (simp add: g')
    moreover have "\<forall>c. c \<noteq> n \<longrightarrow> heap g' ! c = heap g ! c" by (simp add: g')
    ultimately show ?thesis unfolding Let_def n_def [symmetric] using r by blast
  qed
  show ?thesis using empty draw by blast
qed


theorem C1_press_on_deck_witness:
  "collidepoint (deck_rect (deck (Game_init (\<lambda>i. i)))) (50, 50) \<and>
   cards (deck (Game_init (\<lambda>i. i))) = [0..<52] \<and>
   cards (deck g_held) = [0..<51] \<and>
   rect (heap g_held ! 51) = Rect 10 (- 10) 80 120 \<and>
   cards_on_table g_held = [51] \<and>
   held_card g_held = Some 51 \<and>
   drag_offset g_held = (40, 60) \<and>
   \<not> is_flipped (heap g_held ! 51) \<and>
   collidepoint (deck_rect (deck g_drained)) (50, 50) \<and>
   cards (deck g_drained) = [] \<and>
   handle_mouse_down g_drained (50, 50) 1 = g_drained"
proof -
  have r0: "Game_init (\<lambda>i. i) = run (Game_init (\<lambda>i. i)) []" by (simp add: run_def)
  have c0: "collidepoint (deck_rect (deck (Game_init (\<lambda>i. i)))) (50, 50)"
    by (rule press_in_deck)
  have c1: "collidepoint (deck_rect (deck g_drained)) (50, 50)"
    by (simp add: g_drained_def collide_50 session_inv_reachable)
  have u: "[0..<52] = [0..<51] @ [51::nat]"
    using upt_Suc_append [of 0 51] by simp
  have "cards (deck g_held) @ [51] = [0..<51] @ [51]"
    using C1_press_on_deck [OF r0 c0 g_held_def] deck_init_id u by (simp add: Let_def)
  then have d: "cards (deck g_held) = [0..<51]" by simp
  have "handle_mouse_down g_drained (50, 50) 1 = g_drained"
    using C1_press_on_deck [OF g_drained_def c1 refl] g_drained_deck by simp
  then show ?thesis
    using C1_press_on_deck [OF r0 c0 g_held_def] deck_init_id c0 c1 d g_drained_deck
    by (simp add: Let_def Game_init_eq Rect_def)
qed

text \<open>
  Claim C2. In any state of a session, a press of the primary button at a point outside
  the deck's region does the following. If no card on the table contains the point,
  the state stays as it is. Otherwise let \<open>i\<close> be the position of the topmost card
  containing the point, that is, no card after it on the table contains the point: that
  card is taken out of the table and appended to it, the cards before and after it
  keeping their order; it is the held card; the offset is the press point minus its
  origin; and no card and nothing of the deck changes.
\<close>

theorem C2_press_on_table:
  assumes "g = run (Game_init rnd) evs"
    and "\<not> collidepoint (deck_rect (deck g)) pos"
    and "g' = handle_mouse_down g pos 1"
  shows "((\<forall>c\<in>set (cards_on_table g). \<not> collidepoint (rect (heap g ! c)) pos) \<longrightarrow> g' = g) \<and>
         (\<forall>i. i < length (cards_on_table g) \<and>
              collidepoint (rect (heap g ! (cards_on_table g ! i))) pos \<and>
              (\<forall>j. i < j \<and> j < length (cards_on_table g) \<longrightarrow>
                   \<not> collidepoint (rect (heap g ! (cards_on_table g ! j))) pos) \<longrightarrow>
              cards_on_table g' =
                take i (cards_on_table g) @ drop (Suc i) (cards_on_table g) @
                [cards_on_table g ! i] \<and>
              held_card g' = Some (cards_on_table g ! i) \<and>
              drag_offset g' =
                (fst pos - rect_x (rect (heap g ! (cards_on_table g ! i))),
                 snd pos - rect_y (rect (heap g ! (cards_on_table g ! i)))) \<and>
              heap g' = heap g \<and> deck g' = deck g)"
proof -
  let ?P = "\<lambda>c. collidepoint (rect (heap g ! c)) pos"
  let ?t = "cards_on_table g"
  have inv: "session_inv g" using assms(1) by (simp add: session_inv_reachable)
  then have dist: "distinct ?t" by (simp add: session_inv_def)
  have miss: "g' = g" if "\<forall>c\<in>set ?t. \<not> ?P c"
    using find_rev_none [of ?t ?P, OF that] assms(2,3)
    by (simp add: down_table first_hit_def)
  have hit: "cards_on_table g' = take i ?t @ drop (Suc i) ?t @ [?t ! i] \<and>
      held_card g' = Some (?t ! i) \<and>
      drag_offset g' =
        (fst pos - rect_x (rect (heap g ! (?t ! i))), snd pos - rect_y (rect (heap g ! (?t ! i)))) \<and>
      heap g' = heap g \<and> deck g' = deck g"
    if "i < length ?t" and "?P (?t ! i)" and "\<forall>j. i < j \<and> j < length ?t \<longrightarrow> \<not> ?P (?t ! j)"
    for i
  proof -
    have "first_hit (heap g) ?t pos = Some (?t ! i)"
      unfolding first_hit_def using that by (rule find_rev_topmost)
    then show ?thesis
      using assms(2,3) remove1_nth [OF dist that(1)] by (simp add: down_table)
  qed
  show ?thesis using miss hit by blast
qed

theorem C2_press_on_table_witness:
  "cards_on_table g_two = [51, 50] \<and>
   \<not> collidepoint (deck_rect (deck g_two)) (270, 250) \<and>
   collidepoint (rect (heap g_two ! 51)) (270, 250) \<and>
   \<not> collidepoint (rect (heap g_two ! 50)) (270, 250) \<and>
   cards_on_table (handle_mouse_down g_two (270, 250) 1) = [50, 51] \<and>
   held_card (handle_mouse_down g_two (270, 250) 1) = Some 51 \<and>
   drag_offset (handle_mouse_down g_two (270, 250) 1) = (10, 10) \<and>
   \<not> collidepoint (deck_rect (deck g_two)) (600, 600) \<and>
   \<not> collidepoint (rect (heap g_two ! 51)) (600, 600) \<and>
   \<not> collidepoint (rect (heap g_two ! 50)) (600, 600) \<and>
   handle_mouse_down g_two (600, 600) 1 = g_two"
proof -
  have d1: "\<not> collidepoint (deck_rect (deck g_two)) (270, 250)"
    and d2: "\<not> collidepoint (deck_rect (deck g_two)) (600, 600)"
    and h: "collidepoint (rect (heap g_two ! 51)) (270, 250)"
      "\<not> collidepoint (rect (heap g_two ! 50)) (270, 250)"
    and m: "\<not> collidepoint (rect (heap g_two ! 51)) (600, 600)"
      "\<not> collidepoint (rect (heap g_two ! 50)) (600, 600)"
    using g_two_state by (simp_all add: collidepoint_def Rect_def)
  have top: "\<forall>j. 0 < j \<and> j < length (cards_on_table g_two) \<longrightarrow>
      \<not> collidepoint (rect (heap g_two ! (cards_on_table g_two ! j))) (270, 250)"
    using g_two_state h by (auto simp: less_Suc_eq)
  have pick: "cards_on_table (handle_mouse_down g_two (270, 250) 1) = [50, 51] \<and>
      held_card (handle_mouse_down g_two (270, 250) 1) = Some 51 \<and>
      drag_offset (handle_mouse_down g_two (270, 250) 1) = (10, 10)"
    using C2_press_on_table [OF g_two_def d1 refl, THEN conjunct2, THEN spec, of 0]
      g_two_state h top
    by (simp add: Rect_def)
  have none: "handle_mouse_down g_two (600, 600) 1 = g_two"
    using C2_press_on_table [OF g_two_def d2 refl] g_two_state m by simp
  show ?thesis using g_two_state d1 d2 h m pick none by simp
qed

text \<open>
  Claim C3. In any state of a session: a pointer move with no card held changes nothing;
  a pointer move with the card \<open>c\<close> held puts the origin of \<open>c\<close> at the pointer
  position minus the drag offset and leaves its size, its face-up flag and its other
  attributes, every other card, the deck, the table, the held card and the offset as they
  were; a release of the primary button changes the held card to none and nothing else.
  Hence a drag: if no card is held and a press at \<open>p\<close> makes \<open>c\<close> the held card, then
  after any pointer moves that end at \<open>p + (dx, dy)\<close> and the release, the origin of
  \<open>c\<close> is where it was after the press plus \<open>(dx, dy)\<close>, no card is held, and every
  other card is as it was before the press.
\<close>

theorem C3_drag_and_release:
  assumes "g = run (Game_init rnd) evs"
  shows "(held_card g = None \<longrightarrow> handle_mouse_motion g pos = g) \<and>
     (\<forall>c. held_card g = Some c \<longrightarrow>
        (let g' = handle_mouse_motion g pos in
           rect_x (rect (heap g' ! c)) = fst pos - fst (drag_offset g) \<and>
           rect_y (rect (heap g' ! c)) = snd pos - snd (drag_offset g) \<and>
           is_flipped (heap g' ! c) = is_flipped (heap g ! c) \<and>
           same_face (heap g' ! c) (heap g ! c) \<and>
           (\<forall>d. d \<noteq> c \<longrightarrow> heap g' ! d = heap g ! d) \<and>
           length (heap g') = length (heap g) \<and>
           deck g' = deck g \<and> cards_on_table g' = cards_on_table g \<and>
           held_card g' = Some c \<and> drag_offset g' = drag_offset g)) \<and>
     handle_mouse_up g 1 = g\<lparr>held_card := None\<rparr> \<and>
     (\<forall>c. held_card g = None \<and> held_card (handle_mouse_down g p 1) = Some c \<longrightarrow>
        (let g1 = handle_mouse_down g p 1;
             g2 = run g1 (map MOUSEMOTION (qs @ [(fst p + dx, snd p + dy)]));
             g3 = handle_mouse_up g2 1
         in rect_x (rect (heap g3 ! c)) = rect_x (rect (heap g1 ! c)) + dx \<and>
            rect_y (rect (heap g3 ! c)) = rect_y (rect (heap g1 ! c)) + dy \<and>
            is_flipped (heap g3 ! c) = is_flipped (heap g1 ! c) \<and>
            same_face (heap g3 ! c) (heap g1 ! c) \<and>
            (\<forall>d. d \<noteq> c \<longrightarrow> heap g3 ! d = heap g ! d) \<and>
            length (heap g3) = length (heap g) \<and>
            held_card g3 = None \<and>
            cards_on_table g3 = cards_on_table g1 \<and> deck g3 = deck g1))"
proof -
  have inv: "session_inv g" using assms by (simp add: session_inv_reachable)
  have idle: "held_card g = None \<longrightarrow> handle_mouse_motion g pos = g"
    by (simp add: motion_idle)
  have move: "let g' = handle_mouse_motion g pos in
           rect_x (rect (heap g' ! c)) = fst pos - fst (drag_offset g) \<and>
           rect_y (rect (heap g' ! c)) = snd pos - snd (drag_offset g) \<and>
           is_flipped (heap g' ! c) = is_flipped (heap g ! c) \<and>
           same_face (heap g' ! c) (heap g ! c) \<and>
           (\<forall>d. d \<noteq> c \<longrightarrow> heap g' ! d = heap g ! d) \<and>
           length (heap g') = length (heap g) \<and>
           deck g' = deck g \<and> cards_on_table g' = cards_on_table g \<and>
           held_card g' = Some c \<and> drag_offset g' = drag_offset g"
    if h: "held_card g = Some c" for c
  proof -
    have "c \<in> set (cards_on_table g)" using inv h by (simp add: session_inv_def)
    then have l: "c < length (heap g)" using inv by (simp add: inv_ref_lt)
    show ?thesis unfolding Let_def using motion_held [OF h l, of pos] by blast
  qed
  have up: "handle_mouse_up g 1 = g\<lparr>held_card := None\<rparr>"
    by (simp add: handle_mouse_up_def)
  have drag: "let g1 = handle_mouse_down g p 1;
             g2 = run g1 (map MOUSEMOTION (qs @ [(fst p + dx, snd p + dy)]));
             g3 = handle_mouse_up g2 1
         in rect_x (rect (heap g3 ! c)) = rect_x (rect (heap g1 ! c)) + dx \<and>
            rect_y (rect (heap g3 ! c)) = rect_y (rect (heap g1 ! c)) + dy \<and>
            is_flipped (heap g3 ! c) = is_flipped (heap g1 ! c) \<and>
            same_face (heap g3 ! c) (heap g1 ! c) \<and>
            (\<forall>d. d \<noteq> c \<longrightarrow> heap g3 ! d = heap g ! d) \<and>
            length (heap g3) = length (heap g) \<and>
            held_card g3 = None \<and>
            cards_on_table g3 = cards_on_table g1 \<and> deck g3 = deck g1"
    if idle: "held_card g = None" and h1: "held_card (handle_mouse_down g p 1) = Some c" for c
  proof -
    define g1 where "g1 = handle_mouse_down g p 1"
    define gm where "gm = run g1 (map MOUSEMOTION qs)"
    define g2 where "g2 = handle_mouse_motion gm (fst p + dx, snd p + dy)"
    define g3 where "g3 = handle_mouse_up g2 1"
    have inv1: "session_inv g1" unfolding g1_def using inv by (rule session_inv_down)
    have h1': "held_card g1 = Some c" using h1 by (simp add: g1_def)
    then have "c \<in> set (cards_on_table g1)" using inv1 by (simp add: session_inv_def)
    then have l1: "c < length (heap g1)" using inv1 by (simp add: inv_ref_lt)
    have len1: "length (heap g1) = length (heap g)"
      using inv inv1 by (simp add: session_inv_def)
    note pk = press_picks [OF inv idle h1, folded g1_def]
    note ms = motions_held [OF h1' l1, of qs, folded gm_def]
    have hm: "held_card gm = Some c" and lm: "c < length (heap gm)"
      using ms l1 by simp_all
    note m2 = motion_held [OF hm lm, of "(fst p + dx, snd p + dy)", folded g2_def]
    have off: "drag_offset gm = drag_offset g1" using ms by simp
    have x: "rect_x (rect (heap g3 ! c)) = rect_x (rect (heap g1 ! c)) + dx"
      using m2(1) off pk(1) by (simp add: g3_def handle_mouse_up_def)
    have y: "rect_y (rect (heap g3 ! c)) = rect_y (rect (heap g1 ! c)) + dy"
      using m2(2) off pk(1) by (simp add: g3_def handle_mouse_up_def)
    have f: "is_flipped (heap g3 ! c) = is_flipped (heap g1 ! c)"
      using m2(3) ms by (simp add: g3_def handle_mouse_up_def)
    have sf: "same_face (heap g3 ! c) (heap g1 ! c)"
      using m2(4) ms by (auto simp: g3_def handle_mouse_up_def intro: same_face_trans)
    have others: "\<forall>d. d \<noteq> c \<longrightarrow> heap g3 ! d = heap g ! d"
      using m2(5) ms pk(2) by (simp add: g3_def handle_mouse_up_def)
    have len: "length (heap g3) = length (heap g)"
      using m2(6) ms len1 by (simp add: g3_def handle_mouse_up_def)
    have rest: "held_card g3 = None \<and> cards_on_table g3 = cards_on_table g1 \<and> deck g3 = deck g1"
      using m2(7,8) ms by (simp add: g3_def handle_mouse_up_def)
    have g3: "handle_mouse_up (run g1 (map MOUSEMOTION (qs @ [(fst p + dx, snd p + dy)]))) 1
        = g3"
      by (simp add: g3_def g2_def gm_def run_snoc)
    show ?thesis
      unfolding Let_def g1_def [symmetric] unfolding g3
      using x y f sf others len rest by blast
  qed
  show ?thesis using idle move up drag by blast
qed


theorem C3_drag_and_release_witness:
  "held_card g_held = Some 51 \<and>
   rect (heap g_held ! 51) = Rect 10 (- 10) 80 120 \<and> drag_offset g_held = (40, 60) \<and>
   rect (heap (handle_mouse_motion g_held (300, 300)) ! 51) = Rect 260 240 80 120 \<and>
   held_card g_two = None \<and>
   held_card (handle_mouse_down g_two (270, 250) 1) = Some 51 \<and>
   rect (heap g_two ! 51) = Rect 260 240 80 120 \<and>
   rect (heap g_two ! 50) = Rect 280 260 80 120 \<and>
   rect (heap (handle_mouse_up
      (run (handle_mouse_down g_two (270, 250) 1) [MOUSEMOTION (370, 300)]) 1) ! 51)
     = Rect 360 290 80 120 \<and>
   rect (heap (handle_mouse_up
      (run (handle_mouse_down g_two (270, 250) 1) [MOUSEMOTION (370, 300)]) 1) ! 50)
     = Rect 280 260 80 120 \<and>
   held_card (handle_mouse_up
      (run (handle_mouse_down g_two (270, 250) 1) [MOUSEMOTION (370, 300)]) 1) = None"
proof -
  let ?g3 = "handle_mouse_up
      (run (handle_mouse_down g_two (270, 250) 1) [MOUSEMOTION (370, 300)]) 1"
  have hr: "g_held = run (Game_init (\<lambda>i. i)) [MOUSEBUTTONDOWN (50, 50) 1]"
    by (simp add: g_held_run)
  have gh: "rect (heap g_held ! 51) = Rect 10 (- 10) 80 120" "drag_offset g_held = (40, 60)"
    using press_in_deck [of "\<lambda>i. i"]
    by (simp_all add: g_held_def down_deck_draw deck_init_id Game_init_eq shuffle_id
        length_generate generate_51 set_center_def Rect_def)
  have a: "rect (heap (handle_mouse_motion g_held (300, 300)) ! 51) = Rect 260 240 80 120"
    using C3_drag_and_release [OF hr, where pos = "(300, 300)"] g_held_held gh
    by (intro rect_eqI) (simp_all add: Let_def same_face_def Rect_def)
  have idle: "held_card g_two = None" using g_two_state by simp
  have pick: "held_card (handle_mouse_down g_two (270, 250) 1) = Some 51"
    by (simp add: g_two_pick)
  have h1: "heap (handle_mouse_down g_two (270, 250) 1) = heap g_two"
    by (simp add: g_two_pick)
  note drag = C3_drag_and_release [OF g_two_def, where p = "(270, 250)" and qs = "[]"
      and dx = 100 and dy = 50, THEN conjunct2, THEN conjunct2, THEN conjunct2, THEN spec,
      of 51]
  have b: "rect (heap ?g3 ! 51) = Rect 360 290 80 120"
    using drag idle pick h1 g_two_state
    by (intro rect_eqI) (simp_all add: Let_def same_face_def Rect_def)
  have c: "rect (heap ?g3 ! 50) = Rect 280 260 80 120"
    using drag idle pick g_two_state by (simp add: Let_def)
  have d: "held_card ?g3 = None"
    using drag idle pick by (simp add: Let_def)
  show ?thesis using g_held_held gh a idle pick g_two_state b c d by simp
qed

text \<open>
  Claim C4. Flipping a card twice gives the card back, and flipping does not touch its
  rectangle. In any state of a session, a press of the secondary button at a point
  contained in no card on the table changes nothing; otherwise, with \<open>i\<close> the position
  of the topmost card containing the point, the face-up flag of that card is negated,
  its other attributes stay, and every other card stays as it was. In both cases no
  rectangle changes, and the table with its order, the held card, the drag offset and
  the deck stay as they were. A second press of the secondary button at the same point
  gives back the state before the first.
\<close>

theorem C4_flip:
  assumes "g = run (Game_init rnd) evs"
    and "g' = handle_mouse_down g pos 3"
  shows "flip (flip k) = k \<and> rect (flip k) = rect k \<and>
     ((\<forall>c\<in>set (cards_on_table g). \<not> collidepoint (rect (heap g ! c)) pos) \<longrightarrow> g' = g) \<and>
     (\<forall>i. i < length (cards_on_table g) \<and>
          collidepoint (rect (heap g ! (cards_on_table g ! i))) pos \<and>
          (\<forall>j. i < j \<and> j < length (cards_on_table g) \<longrightarrow>
               \<not> collidepoint (rect (heap g ! (cards_on_table g ! j))) pos) \<longrightarrow>
          is_flipped (heap g' ! (cards_on_table g ! i)) =
            (\<not> is_flipped (heap g ! (cards_on_table g ! i))) \<and>
          same_face (heap g' ! (cards_on_table g ! i)) (heap g ! (cards_on_table g ! i)) \<and>
          (\<forall>d. d \<noteq> cards_on_table g ! i \<longrightarrow> heap g' ! d = heap g ! d)) \<and>
     (\<forall>c. rect (heap g' ! c) = rect (heap g ! c)) \<and>
     length (heap g') = length (heap g) \<and>
     cards_on_table g' = cards_on_table g \<and>
     held_card g' = held_card g \<and>
     drag_offset g' = drag_offset g \<and>
     deck g' = deck g \<and>
     handle_mouse_down g' pos 3 = g"
proof -
  let ?P = "\<lambda>c. collidepoint (rect (heap g ! c)) pos"
  let ?t = "cards_on_table g"
  have inv: "session_inv g" using assms(1) by (simp add: session_inv_reachable)
  have card: "flip (flip k) = k \<and> rect (flip k) = rect k"
    by (simp add: flip_def)
  have miss: "g' = g" if "\<forall>c\<in>set ?t. \<not> ?P c"
    using find_rev_none [of ?t ?P, OF that] assms(2)
    by (simp add: down_right first_hit_def)
  have hit: "is_flipped (heap g' ! (?t ! i)) = (\<not> is_flipped (heap g ! (?t ! i))) \<and>
      same_face (heap g' ! (?t ! i)) (heap g ! (?t ! i)) \<and>
      (\<forall>d. d \<noteq> ?t ! i \<longrightarrow> heap g' ! d = heap g ! d)"
    if "i < length ?t" and "?P (?t ! i)" and "\<forall>j. i < j \<and> j < length ?t \<longrightarrow> \<not> ?P (?t ! j)"
    for i
  proof -
    have fh: "first_hit (heap g) ?t pos = Some (?t ! i)"
      unfolding first_hit_def using that by (rule find_rev_topmost)
    have "?t ! i \<in> set ?t" using that(1) by simp
    then have "?t ! i < length (heap g)" using inv by (simp add: inv_ref_lt)
    then show ?thesis
      using fh assms(2) by (simp add: down_right flip_def same_face_def)
  qed
  have frame: "(\<forall>c. rect (heap g' ! c) = rect (heap g ! c)) \<and>
     length (heap g') = length (heap g) \<and>
     cards_on_table g' = cards_on_table g \<and>
     held_card g' = held_card g \<and>
     drag_offset g' = drag_offset g \<and>
     deck g' = deck g"
    using assms(2) by (simp add: down_right rect_flip_update split: option.splits)
  have twice: "handle_mouse_down g' pos 3 = g"
    using assms(2) by (simp add: down_right_twice)
  show ?thesis using card miss hit frame twice by blast
qed

theorem C4_flip_witness:
  "cards_on_table g_two = [51, 50] \<and>
   collidepoint (rect (heap g_two ! 51)) (300, 300) \<and>
   collidepoint (rect (heap g_two ! 50)) (300, 300) \<and>
   \<not> is_flipped (heap g_two ! 50) \<and> \<not> is_flipped (heap g_two ! 51) \<and>
   is_flipped (heap (handle_mouse_down g_two (300, 300) 3) ! 50) \<and>
   \<not> is_flipped (heap (handle_mouse_down g_two (300, 300) 3) ! 51) \<and>
   cards_on_table (handle_mouse_down g_two (300, 300) 3) = [51, 50] \<and>
   handle_mouse_down (handle_mouse_down g_two (300, 300) 3) (300, 300) 3 = g_two \<and>
   \<not> collidepoint (rect (heap g_two ! 51)) (600, 600) \<and>
   \<not> collidepoint (rect (heap g_two ! 50)) (600, 600) \<and>
   handle_mouse_down g_two (600, 600) 3 = g_two"
proof -
  have h: "collidepoint (rect (heap g_two ! 51)) (300, 300)"
      "collidepoint (rect (heap g_two ! 50)) (300, 300)"
    and m: "\<not> collidepoint (rect (heap g_two ! 51)) (600, 600)"
      "\<not> collidepoint (rect (heap g_two ! 50)) (600, 600)"
    using g_two_state by (simp_all add: collidepoint_def Rect_def)
  note at_300 = C4_flip [OF g_two_def refl, where pos = "(300, 300)"]
  have top: "is_flipped (heap (handle_mouse_down g_two (300, 300) 3) ! 50) \<and>
     \<not> is_flipped (heap (handle_mouse_down g_two (300, 300) 3) ! 51)"
    using at_300 [THEN conjunct2, THEN conjunct2, THEN conjunct2, THEN conjunct1, THEN spec,
        of 1] g_two_state h
    by simp
  have rest: "cards_on_table (handle_mouse_down g_two (300, 300) 3) = [51, 50] \<and>
     handle_mouse_down (handle_mouse_down g_two (300, 300) 3) (300, 300) 3 = g_two"
    using at_300 g_two_state by simp
  have none: "handle_mouse_down g_two (600, 600) 3 = g_two"
    using C4_flip [OF g_two_def refl, where pos = "(600, 600)"] g_two_state m by simp
  show ?thesis using g_two_state h m top rest none by simp
qed



end
